theory Spec2Isabelle
  imports Complex_Main
begin

section \<open>Text and JSON values\<close>

text \<open>
  The streaming client of \<^verbatim>\<open>APIService\<close> works on JavaScript strings. They are modelled
  as HOL strings; a chunk of the stream is the text that \<^verbatim>\<open>decoder.decode(value)\<close> returned
  for it. The value of \<^verbatim>\<open>JSON.parse\<close> is a \<open>json\<close>. A number keeps the exact value of its
  literal: the double that JavaScript holds is a function of it, so equal values here are
  equal doubles there. An object keeps its members in insertion order, one per key.
\<close>

datatype json =
    JNull
  | JBool bool
  | JNumber rat
  | JString string
  | JArray "json list"
  | JObject "(string \<times> json) list"

text \<open>
  \<^verbatim>\<open>if (parsed.content)\<close> converts to a boolean. A number is falsy when its double is zero:
  rounding to nearest, ties to even, takes a literal to zero exactly when its magnitude is at
  most \<open>2 ^ -1075\<close>, half of the least positive double.
\<close>

fun truthy :: "json \<Rightarrow> bool" where
  "truthy JNull = False"
| "truthy (JBool b) = b"
| "truthy (JNumber r) = (1 < \<bar>r\<bar> * 2 ^ 1075)"
| "truthy (JString s) = (s \<noteq> [])"
| "truthy (JArray xs) = True"
| "truthy (JObject kvs) = True"

datatype js_error = SyntaxError | TypeError

text \<open>
  \<^verbatim>\<open>parsed.content\<close>: reading a property of \<^verbatim>\<open>null\<close> throws a TypeError; an object gives
  its member or \<^verbatim>\<open>undefined\<close> (\<open>None\<close>); no other JSON value has a property of that name.
\<close>

fun get_content :: "json \<Rightarrow> js_error + json option" where
  "get_content JNull = Inl TypeError"
| "get_content (JObject kvs) = Inr (map_of kvs ''content'')"
| "get_content (JBool b) = Inr None"
| "get_content (JNumber r) = Inr None"
| "get_content (JString s) = Inr None"
| "get_content (JArray xs) = Inr None"

section \<open>JSON.parse\<close>

text \<open>
  The decoding loop below takes \<^verbatim>\<open>JSON.parse\<close> as a parameter, and what is proved of it
  for every parser holds of the real one. \<open>JSON_parse\<close> is the parser used where a
  statement is evaluated at a concrete text: a tokeniser and a pushdown recogniser for the
  JSON grammar (ECMA-404). An escape above \<^verbatim>\<open>\u00FF\<close> has no image in \<open>char\<close> and is
  refused; no text below contains one.
\<close>

datatype token =
    TLBrace | TRBrace | TLBracket | TRBracket | TColon | TComma
  | TString string | TNumber rat | TTrue | TFalse | TNull

definition between :: "char \<Rightarrow> char \<Rightarrow> char \<Rightarrow> bool" where
  "between lo hi c = ((of_char lo :: nat) \<le> of_char c \<and> (of_char c :: nat) \<le> of_char hi)"

definition is_digit :: "char \<Rightarrow> bool" where
  "is_digit c = between (CHR ''0'') (CHR ''9'') c"

definition digit_val :: "char \<Rightarrow> nat" where
  "digit_val c = of_char c - of_char CHR ''0''"

definition digits_val :: "string \<Rightarrow> nat" where
  "digits_val ds = foldl (\<lambda>n c. 10 * n + digit_val c) 0 ds"

definition hex_val :: "char \<Rightarrow> nat option" where
  "hex_val c =
     (if is_digit c then Some (digit_val c)
      else if between (CHR ''a'') (CHR ''f'') c then Some (of_char c - of_char CHR ''a'' + 10)
      else if between (CHR ''A'') (CHR ''F'') c then Some (of_char c - of_char CHR ''A'' + 10)
      else None)"

fun hex4 :: "string \<Rightarrow> nat option" where
  "hex4 [a, b, c, d] =
     (case (hex_val a, hex_val b, hex_val c, hex_val d) of
        (Some x, Some y, Some z, Some w) \<Rightarrow> Some (((x * 16 + y) * 16 + z) * 16 + w)
      | _ \<Rightarrow> None)"
| "hex4 _ = None"

fun unescape :: "char \<Rightarrow> char option" where
  "unescape c =
     (if c = CHR 0x22 then Some (CHR 0x22)
      else if c = CHR 0x5C then Some (CHR 0x5C)
      else if c = CHR ''/'' then Some (CHR ''/'')
      else if c = CHR ''b'' then Some (CHR 0x08)
      else if c = CHR ''f'' then Some (CHR 0x0C)
      else if c = CHR ''n'' then Some (CHR 0x0A)
      else if c = CHR ''r'' then Some (CHR 0x0D)
      else if c = CHR ''t'' then Some (CHR 0x09)
      else None)"

definition cons_char :: "char \<Rightarrow> nat \<Rightarrow> (string \<times> nat) option \<Rightarrow> (string \<times> nat) option" where
  "cons_char c k r = map_option (\<lambda>(s, n). (c # s, n + k)) r"

text \<open>
  The characters of a string literal after its opening quote, up to the closing quote: the
  decoded string and the number of characters read, the closing quote included.
\<close>

fun scan_string :: "string \<Rightarrow> (string \<times> nat) option" where
  "scan_string [] = None"
| "scan_string (c # cs) =
     (if c = CHR 0x22 then Some ([], 1)
      else if c = CHR 0x5C then
        (case cs of
           [] \<Rightarrow> None
         | e # r \<Rightarrow>
             if e = CHR ''u'' then
               (case hex4 (take 4 r) of
                  None \<Rightarrow> None
                | Some n \<Rightarrow>
                    if n < 256 then cons_char (char_of n) 6 (scan_string (drop 4 r)) else None)
             else (case unescape e of
                     None \<Rightarrow> None
                   | Some x \<Rightarrow> cons_char x 2 (scan_string r)))
      else if (of_char c :: nat) < 0x20 then None
      else cons_char c 1 (scan_string cs))"

definition is_number_char :: "char \<Rightarrow> bool" where
  "is_number_char c = (is_digit c \<or> c \<in> set ''+-.eE'')"

text \<open>number: -?(0|[1-9][0-9]*)(.[0-9]+)?([eE][+-]?[0-9]+)?\<close>

definition number_of :: "string \<Rightarrow> rat option" where
  "number_of s =
     (let neg = (take 1 s = ''-'');
          s1 = (if neg then drop 1 s else s);
          ip = takeWhile is_digit s1;
          s2 = dropWhile is_digit s1;
          has_frac = (take 1 s2 = ''.'');
          fp = (if has_frac then takeWhile is_digit (drop 1 s2) else []);
          s3 = (if has_frac then dropWhile is_digit (drop 1 s2) else s2);
          has_exp = (take 1 s3 = ''e'' \<or> take 1 s3 = ''E'');
          s4 = (if has_exp then drop 1 s3 else s3);
          eneg = (has_exp \<and> take 1 s4 = ''-'');
          s5 = (if has_exp \<and> (take 1 s4 = ''-'' \<or> take 1 s4 = ''+'') then drop 1 s4 else s4);
          ep = (if has_exp then takeWhile is_digit s5 else []);
          s6 = (if has_exp then dropWhile is_digit s5 else s5);
          mant = of_nat (digits_val ip) + of_nat (digits_val fp) / 10 ^ length fp;
          scaled = (if eneg then mant / 10 ^ digits_val ep else mant * 10 ^ digits_val ep)
      in if ip = [] \<or> (1 < length ip \<and> hd ip = CHR ''0'') \<or> (has_frac \<and> fp = [])
            \<or> (has_exp \<and> ep = []) \<or> s6 \<noteq> []
         then None
         else Some (if neg then - scaled else scaled))"

definition is_space :: "char \<Rightarrow> bool" where
  "is_space c = (c = CHR '' '' \<or> c = CHR 0x09 \<or> c = CHR 0x0A \<or> c = CHR 0x0D)"

definition cons_token :: "token \<Rightarrow> token list option \<Rightarrow> token list option" where
  "cons_token t r = map_option ((#) t) r"

function lex :: "string \<Rightarrow> token list option" where
  "lex [] = Some []"
| "lex (c # cs) =
     (if is_space c then lex cs
      else if c = CHR ''{'' then cons_token TLBrace (lex cs)
      else if c = CHR ''}'' then cons_token TRBrace (lex cs)
      else if c = CHR ''['' then cons_token TLBracket (lex cs)
      else if c = CHR '']'' then cons_token TRBracket (lex cs)
      else if c = CHR '':'' then cons_token TColon (lex cs)
      else if c = CHR '','' then cons_token TComma (lex cs)
      else if c = CHR 0x22 then
        (case scan_string cs of
           None \<Rightarrow> None
         | Some (s, n) \<Rightarrow> cons_token (TString s) (lex (drop n cs)))
      else if c = CHR ''-'' \<or> is_digit c then
        (case number_of (c # takeWhile is_number_char cs) of
           None \<Rightarrow> None
         | Some r \<Rightarrow> cons_token (TNumber r) (lex (dropWhile is_number_char cs)))
      else if take 4 (c # cs) = ''true'' then cons_token TTrue (lex (drop 3 cs))
      else if take 5 (c # cs) = ''false'' then cons_token TFalse (lex (drop 4 cs))
      else if take 4 (c # cs) = ''null'' then cons_token TNull (lex (drop 3 cs))
      else None)"
  by pat_completeness auto
termination
  by (relation "measure length") (auto simp: less_Suc_eq_le length_dropWhile_le)

datatype frame = InArray "json list" | InObject "(string \<times> json) list" | InMember "(string \<times> json) list" string

datatype expect = Value | ValueOrClose | Key | KeyOrClose | Colon | After json

definition set_member :: "string \<Rightarrow> json \<Rightarrow> (string \<times> json) list \<Rightarrow> (string \<times> json) list" where
  "set_member k v ms = (if k \<in> fst ` set ms then map (\<lambda>(k', v'). if k' = k then (k', v) else (k', v')) ms else ms @ [(k, v)])"

fun begin_value :: "token \<Rightarrow> frame list \<Rightarrow> (expect \<times> frame list) option" where
  "begin_value (TString s) st = Some (After (JString s), st)"
| "begin_value (TNumber r) st = Some (After (JNumber r), st)"
| "begin_value TTrue st = Some (After (JBool True), st)"
| "begin_value TFalse st = Some (After (JBool False), st)"
| "begin_value TNull st = Some (After JNull, st)"
| "begin_value TLBracket st = Some (ValueOrClose, InArray [] # st)"
| "begin_value TLBrace st = Some (KeyOrClose, InObject [] # st)"
| "begin_value _ st = None"

definition key_step :: "frame list \<Rightarrow> token \<Rightarrow> (expect \<times> frame list) option" where
  "key_step st t =
     (case t of
        TString k \<Rightarrow> (case st of InObject ms # st' \<Rightarrow> Some (Colon, InMember ms k # st') | _ \<Rightarrow> None)
      | _ \<Rightarrow> None)"

fun parse_step :: "expect \<Rightarrow> frame list \<Rightarrow> token \<Rightarrow> (expect \<times> frame list) option" where
  "parse_step Value st t = begin_value t st"
| "parse_step ValueOrClose st t =
     (if t = TRBracket
      then (case st of InArray xs # st' \<Rightarrow> Some (After (JArray xs), st') | _ \<Rightarrow> None)
      else begin_value t st)"
| "parse_step KeyOrClose st t =
     (if t = TRBrace
      then (case st of InObject ms # st' \<Rightarrow> Some (After (JObject ms), st') | _ \<Rightarrow> None)
      else key_step st t)"
| "parse_step Key st t = key_step st t"
| "parse_step Colon st t = (if t = TColon then Some (Value, st) else None)"
| "parse_step (After v) st t =
     (case st of
        InArray xs # st' \<Rightarrow>
          if t = TComma then Some (Value, InArray (xs @ [v]) # st')
          else if t = TRBracket then Some (After (JArray (xs @ [v])), st')
          else None
      | InMember ms k # st' \<Rightarrow>
          if t = TComma then Some (Key, InObject (set_member k v ms) # st')
          else if t = TRBrace then Some (After (JObject (set_member k v ms)), st')
          else None
      | _ \<Rightarrow> None)"

fun parse_tokens :: "expect \<Rightarrow> frame list \<Rightarrow> token list \<Rightarrow> json option" where
  "parse_tokens (After v) [] [] = Some v"
| "parse_tokens e st [] = None"
| "parse_tokens e st (t # ts) =
     (case parse_step e st t of
        None \<Rightarrow> None
      | Some (e', st') \<Rightarrow> parse_tokens e' st' ts)"

definition JSON_parse :: "string \<Rightarrow> json option" where
  "JSON_parse s = (case lex s of None \<Rightarrow> None | Some ts \<Rightarrow> parse_tokens Value [] ts)"

section \<open>The decoding loop of streamChat\<close>

text \<open>
  \<^verbatim>\<open>chunk.split('\n')\<close>: the pieces between line feeds. The result is never empty, so
  the last case below is never taken (\<open>split_nl_not_Nil\<close>).
\<close>

fun split_nl :: "string \<Rightarrow> string list" where
  "split_nl [] = [[]]"
| "split_nl (c # cs) =
     (if c = CHR 0x0A then [] # split_nl cs
      else (case split_nl cs of
              l # ls \<Rightarrow> (c # l) # ls
            | [] \<Rightarrow> [[c]]))"

definition startsWith :: "string \<Rightarrow> string \<Rightarrow> bool" where
  "startsWith line p = (take (length p) line = p)"

text \<open>
  The body of \<^verbatim>\<open>for (const line of lines)\<close> for one line. \<open>parse\<close> stands for
  \<^verbatim>\<open>JSON.parse\<close>, with \<open>None\<close> for a thrown SyntaxError; the \<^verbatim>\<open>catch\<close> swallows that and
  the TypeError of \<open>get_content\<close>.
\<close>

datatype line_result = Return | Yield json | Skip

definition process_line :: "(string \<Rightarrow> json option) \<Rightarrow> string \<Rightarrow> line_result" where
  "process_line parse line =
     (if startsWith line ''data: '' then
        (let data = drop 6 line in
         if data = ''[DONE]'' then Return
         else (case parse data of
                 None \<Rightarrow> Skip
               | Some parsed \<Rightarrow>
                   (case get_content parsed of
                      Inl e \<Rightarrow> Skip
                    | Inr None \<Rightarrow> Skip
                    | Inr (Some c) \<Rightarrow> if truthy c then Yield c else Skip)))
      else Skip)"

text \<open>
  The \<^verbatim>\<open>for\<close> loop over the lines of one chunk: the values yielded, and whether the
  generator returned at the sentinel.
\<close>

fun for_lines :: "(string \<Rightarrow> json option) \<Rightarrow> string list \<Rightarrow> json list \<times> bool" where
  "for_lines parse [] = ([], False)"
| "for_lines parse (line # lines) =
     (case process_line parse line of
        Return \<Rightarrow> ([], True)
      | Yield c \<Rightarrow> (c # fst (for_lines parse lines), snd (for_lines parse lines))
      | Skip \<Rightarrow> for_lines parse lines)"

text \<open>
  The results of the successive \<^verbatim>\<open>await reader.read()\<close>: a chunk, the end of the input, or a
  rejection. A list that ends without \<open>Done\<close> or \<open>Rejected\<close> is a stream on which nothing
  more arrives: the generator stays suspended in \<^verbatim>\<open>read\<close>.
\<close>

datatype read = Chunk string | Done | Rejected string

datatype outcome = Returned | Thrown string | Suspended

fun read_loop :: "(string \<Rightarrow> json option) \<Rightarrow> read list \<Rightarrow> json list \<times> outcome" where
  "read_loop parse [] = ([], Suspended)"
| "read_loop parse (Done # rs) = ([], Returned)"
| "read_loop parse (Rejected e # rs) = ([], Thrown e)"
| "read_loop parse (Chunk chunk # rs) =
     (case for_lines parse (split_nl chunk) of
        (ds, True) \<Rightarrow> (ds, Returned)
      | (ds, False) \<Rightarrow> (ds @ fst (read_loop parse rs), snd (read_loop parse rs)))"

text \<open>
  The response of \<^verbatim>\<open>fetch\<close>: \<open>body\<close> is \<open>None\<close> when \<^verbatim>\<open>response.body\<close> is null, so that
  \<^verbatim>\<open>reader\<close> is undefined. \<open>streamChat\<close> gives the values the generator yields to a consumer
  that drains it, in order, and how the generator ends.
\<close>

record response =
  ok :: bool
  statusText :: string
  body :: "read list option"

datatype fetched = Rejects string | Resolves response

fun streamChat :: "(string \<Rightarrow> json option) \<Rightarrow> fetched \<Rightarrow> json list \<times> outcome" where
  "streamChat parse (Rejects e) = ([], Thrown e)"
| "streamChat parse (Resolves response) =
     (if \<not> ok response then ([], Thrown (''Stream error: '' @ statusText response))
      else (case body response of
              None \<Rightarrow> ([], Thrown ''No reader available'')
            | Some reads \<Rightarrow> read_loop parse reads))"

section \<open>Frames and their Deltas\<close>

text \<open>
  The vocabulary of the statements about the stream. A frame with payload \<open>p\<close> is the line
  \<open>data_line p\<close>; \<open>wire\<close> writes frames as the server does, each followed by a blank line.
  \<open>delta_of_line\<close> is the value that one line makes the generator yield, if any, and
  \<open>deltas_of_lines\<close> collects them over a list of lines in order.
\<close>

definition data_line :: "string \<Rightarrow> string" where
  "data_line p = ''data: '' @ p"

definition wire :: "string list \<Rightarrow> string" where
  "wire ps = concat (map (\<lambda>p. data_line p @ [CHR 0x0A, CHR 0x0A]) ps)"

definition delta_of_line :: "(string \<Rightarrow> json option) \<Rightarrow> string \<Rightarrow> json option" where
  "delta_of_line parse line = (case process_line parse line of Yield c \<Rightarrow> Some c | _ \<Rightarrow> None)"

definition deltas_of_lines :: "(string \<Rightarrow> json option) \<Rightarrow> string list \<Rightarrow> json list" where
  "deltas_of_lines parse ls = List.map_filter (delta_of_line parse) ls"

text \<open>The text that a payload carries: the string under \<^verbatim>\<open>content\<close> of a JSON object.\<close>

definition content_text :: "(string \<Rightarrow> json option) \<Rightarrow> string \<Rightarrow> string option" where
  "content_text parse p =
     (case parse p of
        Some (JObject kvs) \<Rightarrow>
          (case map_of kvs ''content'' of Some (JString t) \<Rightarrow> Some t | _ \<Rightarrow> None)
      | _ \<Rightarrow> None)"

text \<open>
  The Deltas of a sequence of frames, given by their payloads: what each frame's line makes
  the generator yield, if anything, in the order of the frames.
\<close>

definition frame_deltas :: "(string \<Rightarrow> json option) \<Rightarrow> string list \<Rightarrow> json list" where
  "frame_deltas parse ps = List.map_filter (\<lambda>p. delta_of_line parse (data_line p)) ps"

fun is_text :: "json \<Rightarrow> bool" where
  "is_text (JString s) = True"
| "is_text (JNull) = False"
| "is_text (JBool b) = False"
| "is_text (JNumber r) = False"
| "is_text (JArray xs) = False"
| "is_text (JObject kvs) = False"

text \<open>The concatenation of the Deltas that are strings, in order.\<close>

definition concat_text :: "json list \<Rightarrow> string" where
  "concat_text ds = concat (map (\<lambda>d. case d of JString s \<Rightarrow> s | _ \<Rightarrow> []) ds)"

section \<open>The ghost suggestion scheduler of DocumentEditor\<close>

text \<open>
  The component's state (\<^verbatim>\<open>useState\<close>, \<^verbatim>\<open>useRef\<close>) together with the part of the browser it
  acts on: the selection of the textarea, the pending timeouts and the
  \<^verbatim>\<open>getGhostSuggestion\<close> calls that have not resolved yet. A pending timeout holds what its
  callback closed over: for the callback of \<^verbatim>\<open>handleInput\<close> the \<^verbatim>\<open>newContent\<close> of that
  event, for the callback of \<^verbatim>\<open>handleKeyDown\<close> the length of the new content. A call in
  flight holds \<^verbatim>\<open>newContent\<close> and the \<^verbatim>\<open>cursorPos\<close> read when the timer fired. \<open>calls\<close> logs
  the \<^verbatim>\<open>text\<close> and \<^verbatim>\<open>cursorPosition\<close> of every \<^verbatim>\<open>getGhostSuggestion\<close> call and \<open>changes\<close>
  every \<^verbatim>\<open>onChange\<close>; \<^verbatim>\<open>purpose\<close> and \<^verbatim>\<open>selectedModel\<close> are props that no event below changes
  and are left out, and the \<^verbatim>\<open>content\<close> prop is what \<^verbatim>\<open>onChange\<close> last reported, so that its
  effect sets \<^verbatim>\<open>localContent\<close> to the value it has. The code runs on React 17 or later (the
  workspace uses the JSX transform without the React import), where \<^verbatim>\<open>e.target\<close> is still
  the textarea when the timer fires.
\<close>

record GhostSuggestion =
  ghost_text :: string
  ghost_position :: nat

datatype callback = GhostCallback string | CursorCallback nat

record editor =
  localContent :: string
  ghostSuggestion :: "GhostSuggestion option"
  isComposing :: bool
  ghostTimeoutRef :: "nat option"
  selectionStart :: nat
  selectionEnd :: nat
  timers :: "(nat \<times> callback) list"
  nextTimer :: nat
  requests :: "(nat \<times> string \<times> nat) list"
  nextRequest :: nat
  calls :: "(string \<times> nat) list"
  changes :: "string list"

definition mount :: "string \<Rightarrow> editor" where
  "mount content =
     \<lparr>localContent = content, ghostSuggestion = None, isComposing = False,
      ghostTimeoutRef = None, selectionStart = 0, selectionEnd = 0,
      timers = [], nextTimer = 1, requests = [], nextRequest = 1,
      calls = [], changes = []\<rparr>"

text \<open>\<^verbatim>\<open>setTimeout\<close> returns a fresh positive id; \<^verbatim>\<open>clearTimeout\<close> drops the timeout of an id.\<close>

definition setTimeout :: "callback \<Rightarrow> editor \<Rightarrow> nat \<times> editor" where
  "setTimeout cb s =
     (nextTimer s, s\<lparr>timers := timers s @ [(nextTimer s, cb)], nextTimer := Suc (nextTimer s)\<rparr>)"

definition clearTimeout :: "nat \<Rightarrow> editor \<Rightarrow> editor" where
  "clearTimeout i s = s\<lparr>timers := filter (\<lambda>(j, cb). j \<noteq> i) (timers s)\<rparr>"

text \<open>
  \<^verbatim>\<open>handleInput\<close>, for an input event whose target has the value \<open>newContent\<close>. The truthiness
  test of \<^verbatim>\<open>ghostTimeoutRef.current\<close> fails for \<^verbatim>\<open>null\<close> and for the number 0.
\<close>

definition handleInput :: "string \<Rightarrow> editor \<Rightarrow> editor" where
  "handleInput newContent s =
     (let s1 = s\<lparr>localContent := newContent, changes := changes s @ [newContent],
                 ghostSuggestion := None\<rparr>;
          s2 = (case ghostTimeoutRef s1 of
                  None \<Rightarrow> s1
                | Some i \<Rightarrow> if i \<noteq> 0 then clearTimeout i s1 else s1)
      in if \<not> isComposing s2
         then (case setTimeout (GhostCallback newContent) s2 of
                 (i, s3) \<Rightarrow> s3\<lparr>ghostTimeoutRef := Some i\<rparr>)
         else s2)"

text \<open>
  What \<^verbatim>\<open>await apiService.getGhostSuggestion\<close> comes back with: a string, a value that is not a
  string, or a rejection. \<^verbatim>\<open>generateGhostSuggestion\<close> gives a suggestion for a string that is
  truthy and whose \<^verbatim>\<open>trim()\<close> is truthy. A falsy value gives \<^verbatim>\<open>null\<close>; a truthy value that is
  not a string has no \<^verbatim>\<open>trim\<close>, and the TypeError is caught like a rejection and gives
  \<^verbatim>\<open>null\<close> as well.
\<close>

datatype reply = Resolve string | ResolveOther | Reject

definition is_white :: "char \<Rightarrow> bool" where
  "is_white c = (of_char c \<in> {0x09, 0x0A, 0x0B, 0x0C, 0x0D, 0x20, 0xA0 :: nat})"

definition trim :: "string \<Rightarrow> string" where
  "trim s = rev (dropWhile is_white (rev (dropWhile is_white s)))"

definition generateGhostSuggestion :: "reply \<Rightarrow> nat \<Rightarrow> GhostSuggestion option" where
  "generateGhostSuggestion r cursorPosition =
     (case r of
        Resolve suggestion \<Rightarrow>
          if suggestion \<noteq> [] \<and> trim suggestion \<noteq> []
          then Some \<lparr>ghost_text = suggestion, ghost_position = cursorPosition\<rparr>
          else None
      | ResolveOther \<Rightarrow> None
      | Reject \<Rightarrow> None)"

text \<open>
  The callback of \<^verbatim>\<open>handleInput\<close>'s timeout, in its two parts: up to the \<^verbatim>\<open>await\<close>, where it
  reads the live \<^verbatim>\<open>selectionStart\<close> and issues the call, and after it, where it applies
  the result.
\<close>

definition ghost_fire :: "string \<Rightarrow> editor \<Rightarrow> editor" where
  "ghost_fire newContent s =
     (let cursorPos = selectionStart s
      in s\<lparr>calls := calls s @ [(newContent, cursorPos)],
           requests := requests s @ [(nextRequest s, newContent, cursorPos)],
           nextRequest := Suc (nextRequest s)\<rparr>)"

definition ghost_resume :: "string \<Rightarrow> nat \<Rightarrow> reply \<Rightarrow> editor \<Rightarrow> editor" where
  "ghost_resume newContent cursorPos r s =
     (let suggestion = generateGhostSuggestion r cursorPos
      in if suggestion \<noteq> None \<and> cursorPos = length newContent
         then s\<lparr>ghostSuggestion := suggestion\<rparr>
         else s)"

text \<open>
  \<^verbatim>\<open>handleKeyDown\<close>: both tests read the \<^verbatim>\<open>ghostSuggestion\<close> of the render that made the
  handler. After Tab the render writes the new content into the controlled textarea; a
  textarea whose value is set to a different text has its caret moved to the end of it.
\<close>

datatype key = Tab | Escape | OtherKey

definition handleKeyDown :: "key \<Rightarrow> editor \<Rightarrow> editor" where
  "handleKeyDown k s =
     (let s1 = (case ghostSuggestion s of
                  None \<Rightarrow> s
                | Some g \<Rightarrow>
                    if k = Tab
                    then (let newContent = localContent s @ ghost_text g;
                              caret = (if newContent \<noteq> localContent s then length newContent
                                       else selectionStart s);
                              caretEnd = (if newContent \<noteq> localContent s then length newContent
                                          else selectionEnd s)
                          in snd (setTimeout (CursorCallback (length newContent))
                                   (s\<lparr>localContent := newContent,
                                      changes := changes s @ [newContent],
                                      ghostSuggestion := None,
                                      selectionStart := caret,
                                      selectionEnd := caretEnd\<rparr>)))
                    else s)
      in if k = Escape \<and> ghostSuggestion s \<noteq> None then s1\<lparr>ghostSuggestion := None\<rparr> else s1)"

text \<open>
  What happens to the component. \<open>Input v c\<close>: the user edits the textarea, which then has
  the value \<open>v\<close> and the caret at \<open>c\<close>, and \<^verbatim>\<open>onChange\<close> runs. \<open>Fire i\<close>: the timeout \<open>i\<close>
  expires. \<open>Reply q r\<close>: the call \<open>q\<close> comes back with \<open>r\<close>. \<open>Select a b\<close>: the user moves the
  selection. A timeout that is not pending does not fire, and a call that is not in flight
  does not come back. Time is not measured: a burst of inputs faster than the debounce
  interval is a run of \<open>Input\<close> events with no \<open>Fire\<close> between them.
\<close>

datatype event =
    Input string nat
  | Fire nat
  | Reply nat reply
  | KeyDown key
  | CompositionStart
  | CompositionEnd
  | Select nat nat

fun step :: "editor \<Rightarrow> event \<Rightarrow> editor" where
  "step s (Input v c) = handleInput v (s\<lparr>selectionStart := c, selectionEnd := c\<rparr>)"
| "step s (Fire i) =
     (case map_of (timers s) i of
        None \<Rightarrow> s
      | Some (GhostCallback newContent) \<Rightarrow> ghost_fire newContent (clearTimeout i s)
      | Some (CursorCallback n) \<Rightarrow> (clearTimeout i s)\<lparr>selectionStart := n, selectionEnd := n\<rparr>)"
| "step s (Reply q r) =
     (case map_of (requests s) q of
        None \<Rightarrow> s
      | Some (newContent, cursorPos) \<Rightarrow>
          ghost_resume newContent cursorPos r
            (s\<lparr>requests := filter (\<lambda>(j, x). j \<noteq> q) (requests s)\<rparr>))"
| "step s (KeyDown k) = handleKeyDown k s"
| "step s CompositionStart = s\<lparr>isComposing := True\<rparr>"
| "step s CompositionEnd = s\<lparr>isComposing := False\<rparr>"
| "step s (Select a b) = s\<lparr>selectionStart := a, selectionEnd := b\<rparr>"

definition run :: "editor \<Rightarrow> event list \<Rightarrow> editor" where
  "run s es = foldl step s es"

text \<open>The pending timeouts that will call \<^verbatim>\<open>getGhostSuggestion\<close>.\<close>

fun is_ghost :: "callback \<Rightarrow> bool" where
  "is_ghost (GhostCallback v) = True"
| "is_ghost (CursorCallback n) = False"

definition ghost_timers :: "editor \<Rightarrow> (nat \<times> callback) list" where
  "ghost_timers s = filter (\<lambda>(i, cb). is_ghost cb) (timers s)"

text \<open>
  The invariant of the timer handle: the ids of the pending timeouts are distinct, positive
  and below the next one, and a pending timeout of \<^verbatim>\<open>handleInput\<close> is the one
  \<^verbatim>\<open>ghostTimeoutRef\<close> holds.
\<close>

definition handle_inv :: "editor \<Rightarrow> bool" where
  "handle_inv s =
     (0 < nextTimer s \<and> distinct (map fst (timers s)) \<and>
      list_all (\<lambda>(i, cb). i < nextTimer s \<and> (is_ghost cb \<longrightarrow> ghostTimeoutRef s = Some i \<and> i \<noteq> 0))
        (timers s))"

text \<open>An event that is the answer to the call \<open>q\<close>.\<close>

fun is_reply_to :: "nat \<Rightarrow> event \<Rightarrow> bool" where
  "is_reply_to q (Reply q' r) = (q' = q)"
| "is_reply_to q e = False"

text \<open>A burst of input events: the values and caret positions, in order.\<close>

definition burst :: "(string \<times> nat) list \<Rightarrow> event list" where
  "burst inputs = map (\<lambda>(v, c). Input v c) inputs"

section \<open>Properties of the decoding loop\<close>

subsection \<open>Lines\<close>

lemma split_nl_not_Nil: "split_nl s \<noteq> []"
  by (induction s) (auto split: list.splits)

lemma split_nl_LF: "split_nl (a @ CHR 0x0A # b) = split_nl a @ split_nl b"
proof (induction a)
  case Nil
  show ?case by simp
next
  case (Cons c a)
  obtain l ls where "split_nl a = l # ls"
    using split_nl_not_Nil [of a] by (cases "split_nl a") auto
  with Cons show ?case by simp
qed

lemma split_nl_LF_end: "split_nl (a @ [CHR 0x0A]) = split_nl a @ [[]]"
  using split_nl_LF [of a "[]"] by simp

lemma split_nl_no_LF: "CHR 0x0A \<notin> set s \<Longrightarrow> split_nl s = [s]"
  by (induction s) auto

lemma startsWith_data: "startsWith l ''data: '' \<longleftrightarrow> take 6 l = ''data: ''"
proof -
  have "length ''data: '' = 6" by simp
  then show ?thesis by (simp only: startsWith_def)
qed

lemma process_line_Return_iff: "process_line parse l = Return \<longleftrightarrow> l = ''data: [DONE]''"
proof
  assume "process_line parse l = Return"
  then have "take 6 l = ''data: ''" and "drop 6 l = ''[DONE]''"
    by (auto simp: process_line_def startsWith_data Let_def
             split: if_splits option.splits sum.splits)
  then have "take 6 l @ drop 6 l = ''data: '' @ ''[DONE]''" by simp
  then show "l = ''data: [DONE]''" by simp
next
  assume "l = ''data: [DONE]''"
  then show "process_line parse l = Return"
    by (simp add: process_line_def startsWith_data)
qed

lemma process_line_empty: "process_line parse [] = Skip"
  by (simp add: process_line_def startsWith_data)

lemma process_line_data_line:
  "p \<noteq> ''[DONE]'' \<Longrightarrow>
   process_line parse (data_line p) =
     (case parse p of
        None \<Rightarrow> Skip
      | Some parsed \<Rightarrow>
          (case get_content parsed of
             Inl e \<Rightarrow> Skip
           | Inr None \<Rightarrow> Skip
           | Inr (Some c) \<Rightarrow> if truthy c then Yield c else Skip))"
  by (simp add: process_line_def startsWith_data data_line_def)

subsection \<open>The loops\<close>

lemma for_lines_append:
  "for_lines parse (xs @ ys) =
     (if snd (for_lines parse xs) then for_lines parse xs
      else (fst (for_lines parse xs) @ fst (for_lines parse ys), snd (for_lines parse ys)))"
  by (induction xs) (auto split: line_result.splits)

lemma for_lines_data_only:
  "for_lines parse ls = for_lines parse (filter (\<lambda>l. startsWith l ''data: '') ls)"
proof (induction ls)
  case Nil
  show ?case by simp
next
  case (Cons l ls)
  show ?case
  proof (cases "startsWith l ''data: ''")
    case True
    with Cons show ?thesis by (cases "process_line parse l") auto
  next
    case False
    then have "process_line parse l = Skip" by (simp add: process_line_def)
    with False Cons show ?thesis by simp
  qed
qed

lemma for_lines_no_sentinel:
  "''data: [DONE]'' \<notin> set ls \<Longrightarrow> for_lines parse ls = (deltas_of_lines parse ls, False)"
proof (induction ls)
  case Nil
  show ?case by (simp add: deltas_of_lines_def List.map_filter_simps)
next
  case (Cons l ls)
  then have "process_line parse l \<noteq> Return"
    by (auto simp: process_line_Return_iff)
  with Cons show ?case
    by (cases "process_line parse l")
       (auto simp: deltas_of_lines_def delta_of_line_def List.map_filter_simps)
qed

lemma for_lines_sentinel:
  "''data: [DONE]'' \<notin> set ls1 \<Longrightarrow>
   for_lines parse (ls1 @ ''data: [DONE]'' # ls2) = (deltas_of_lines parse ls1, True)"
  using process_line_Return_iff [of parse "''data: [DONE]''"]
  by (simp add: for_lines_append for_lines_no_sentinel)

lemma deltas_of_lines_append:
  "deltas_of_lines parse (xs @ ys) = deltas_of_lines parse xs @ deltas_of_lines parse ys"
  by (simp add: deltas_of_lines_def List.map_filter_def)

lemma read_loop_chunks:
  "''data: [DONE]'' \<notin> set (concat (map split_nl cs)) \<Longrightarrow>
   read_loop parse (map Chunk cs @ rs) =
     (deltas_of_lines parse (concat (map split_nl cs)) @ fst (read_loop parse rs),
      snd (read_loop parse rs))"
proof (induction cs)
  case Nil
  show ?case by (simp add: deltas_of_lines_def List.map_filter_simps)
next
  case (Cons c cs)
  then show ?case
    by (simp add: for_lines_no_sentinel deltas_of_lines_append)
qed

lemma read_loop_join_LF:
  "read_loop parse (Chunk (a @ [CHR 0x0A]) # Chunk d # rest) =
   read_loop parse (Chunk (a @ CHR 0x0A # d) # rest)"
  by (simp add: split_nl_LF split_nl_LF_end for_lines_append process_line_empty
           split: prod.splits bool.splits)

lemma read_loop_line_chunks:
  assumes "\<forall>c \<in> set cs. c \<noteq> [] \<and> last c = CHR 0x0A"
  shows "read_loop parse (map Chunk cs @ Chunk d # rest) =
         read_loop parse (Chunk (concat cs @ d) # rest)"
  using assms
proof (induction cs)
  case Nil
  show ?case by simp
next
  case (Cons c cs)
  then have c: "c = butlast c @ [CHR 0x0A]"
    by (metis append_butlast_last_id list.set_intros(1))
  from Cons have IH: "read_loop parse (map Chunk cs @ Chunk d # rest) =
      read_loop parse (Chunk (concat cs @ d) # rest)"
    by simp
  have "read_loop parse (map Chunk (c # cs) @ Chunk d # rest) =
        read_loop parse (Chunk (butlast c @ [CHR 0x0A]) # Chunk (concat cs @ d) # rest)"
    using IH c by (simp del: read_loop.simps add: read_loop.simps(4) [of parse c])
  also have "\<dots> = read_loop parse (Chunk (butlast c @ CHR 0x0A # (concat cs @ d)) # rest)"
    by (rule read_loop_join_LF)
  also have "butlast c @ CHR 0x0A # (concat cs @ d) = concat (c # cs) @ d"
    using c by (metis append.assoc append_Cons append_Nil concat.simps(2))
  finally show ?case .
qed

lemma for_lines_truthy: "\<forall>d \<in> set (fst (for_lines parse ls)). truthy d"
  by (induction ls)
     (auto simp: process_line_def Let_def
           split: line_result.splits if_splits option.splits sum.splits)

lemma read_loop_truthy: "\<forall>d \<in> set (fst (read_loop parse rs)). truthy d"
proof (induction parse rs rule: read_loop.induct)
  case (4 parse chunk rs)
  then show ?case
    using for_lines_truthy [of parse "split_nl chunk"]
    by (auto split: prod.splits bool.splits)
qed simp_all

lemma streamChat_truthy: "\<forall>d \<in> set (fst (streamChat parse f)). truthy d"
  using read_loop_truthy by (cases f) (auto split: option.splits)

subsection \<open>Chunk boundaries\<close>

text \<open>
  C1 (chunk-split invariance), as the code has it. Feeding a text in several chunks gives
  the same Deltas and the same end as feeding it in one chunk when every chunk but the last
  ends with a line feed: for all chunks \<open>cs\<close>, each ending with a line feed, a last chunk
  \<open>d\<close> and any further reads \<open>rest\<close>, the generator does on \<open>cs @ [d]\<close> followed by \<open>rest\<close>
  what it does on the single chunk \<open>concat (cs @ [d])\<close> followed by \<open>rest\<close>. No partial line
  is kept from one chunk to the next: for any chunks \<open>xs\<close> without the sentinel line, the
  Deltas are those of the lines of each chunk split on its own.
\<close>

theorem chunk_split_at_line_feeds:
  assumes "\<forall>c \<in> set cs. c \<noteq> [] \<and> last c = CHR 0x0A"
  shows "streamChat parse
           (Resolves \<lparr>ok = True, statusText = st, body = Some (map Chunk (cs @ [d]) @ rest)\<rparr>) =
         streamChat parse
           (Resolves \<lparr>ok = True, statusText = st, body = Some (Chunk (concat (cs @ [d])) # rest)\<rparr>)
       \<and> (''data: [DONE]'' \<notin> set (concat (map split_nl xs)) \<longrightarrow>
            streamChat parse
              (Resolves \<lparr>ok = True, statusText = st, body = Some (map Chunk xs @ rest)\<rparr>) =
            (deltas_of_lines parse (concat (map split_nl xs)) @ fst (read_loop parse rest),
             snd (read_loop parse rest)))"
  using read_loop_line_chunks [OF assms, of parse d rest] read_loop_chunks [of xs parse rest]
  by simp

theorem chunk_split_at_line_feeds_witness:
  \<open>last ''data: {"content":"A"}\<newline>'' = CHR 0x0A
   \<and> last ''\<newline>data: {"content":"B"}\<newline>'' = CHR 0x0A
   \<and> streamChat JSON_parse (Resolves \<lparr>ok = True, statusText = ''OK'',
        body = Some (map Chunk ([''data: {"content":"A"}\<newline>'',
                                 ''\<newline>data: {"content":"B"}\<newline>'']
                                @ [''\<newline>data: [DONE]'']) @ [Done])\<rparr>)
     = ([JString ''A'', JString ''B''], Returned)
   \<and> streamChat JSON_parse (Resolves \<lparr>ok = True, statusText = ''OK'',
        body = Some (map Chunk [''data: {"content":"A"}\<newline>da'',
                                ''ta: {"content":"B"}\<newline>''] @ [Done])\<rparr>)
     = ([JString ''A''], Returned)\<close>
proof -
  let ?cs = \<open>[''data: {"content":"A"}\<newline>'', ''\<newline>data: {"content":"B"}\<newline>'']\<close>
  let ?xs = \<open>[''data: {"content":"A"}\<newline>da'', ''ta: {"content":"B"}\<newline>'']\<close>
  have h: "\<forall>c \<in> set ?cs. c \<noteq> [] \<and> last c = CHR 0x0A"
    by simp
  have n: "''data: [DONE]'' \<notin> set (concat (map split_nl ?xs))"
    by code_simp
  have v: \<open>streamChat JSON_parse (Resolves \<lparr>ok = True, statusText = ''OK'',
        body = Some (Chunk (concat (?cs @ [''\<newline>data: [DONE]''])) # [Done])\<rparr>)
     = ([JString ''A'', JString ''B''], Returned)\<close>
    by code_simp
  have w: "deltas_of_lines JSON_parse (concat (map split_nl ?xs)) = [JString ''A'']"
    by code_simp
  have rl: "read_loop JSON_parse [Done] = ([], Returned)" by simp
  note T = chunk_split_at_line_feeds
    [OF h, of JSON_parse "''OK''" \<open>''\<newline>data: [DONE]''\<close> "[Done]" ?xs]
  have a: \<open>streamChat JSON_parse (Resolves \<lparr>ok = True, statusText = ''OK'',
        body = Some (map Chunk (?cs @ [''\<newline>data: [DONE]'']) @ [Done])\<rparr>)
     = ([JString ''A'', JString ''B''], Returned)\<close>
    using T [THEN conjunct1] v by (rule trans)
  have b: \<open>streamChat JSON_parse (Resolves \<lparr>ok = True, statusText = ''OK'',
        body = Some (map Chunk ?xs @ [Done])\<rparr>) = ([JString ''A''], Returned)\<close>
    using T [THEN conjunct2, THEN mp, OF n] by (simp only: w rl fst_conv snd_conv append_Nil2)
  have l1: \<open>last ''data: {"content":"A"}\<newline>'' = CHR 0x0A\<close> by simp
  have l2: \<open>last ''\<newline>data: {"content":"B"}\<newline>'' = CHR 0x0A\<close> by simp
  show ?thesis by (rule conjI [OF l1 conjI [OF l2 conjI [OF a b]]])
qed

text \<open>
  The claim as the specification states it fails: the frame \<^verbatim>\<open>data: {"content":"A"}\<close> in one
  chunk yields the Delta \<^verbatim>\<open>A\<close>; the same text cut inside the line yields nothing, since
  neither half is a line that parses.
\<close>

theorem chunk_split_mid_line:
  \<open>fst (streamChat JSON_parse (Resolves \<lparr>ok = True, statusText = ''OK'',
      body = Some [Chunk ''data: {"content":"A"}\<newline>\<newline>'', Done]\<rparr>)) = [JString ''A'']
   \<and> fst (streamChat JSON_parse (Resolves \<lparr>ok = True, statusText = ''OK'',
      body = Some [Chunk ''data: {"con'', Chunk ''tent":"A"}\<newline>\<newline>'', Done]\<rparr>)) = []\<close>
  by code_simp

subsection \<open>The sentinel and the end of the input\<close>

text \<open>
  C4 (sentinel termination). When a chunk has the line \<^verbatim>\<open>data: [DONE]\<close> and no earlier line
  of the stream is that line, the generator returns there: it has yielded the Deltas of the
  lines before the sentinel and nothing else, whatever the lines \<open>ls2\<close> after it in the same
  chunk and the reads \<open>post\<close> after the chunk are.
\<close>

theorem sentinel_termination:
  assumes "ok r" and "body r = Some (map Chunk cs @ Chunk c # post)"
    and "split_nl c = ls1 @ ''data: [DONE]'' # ls2"
    and "''data: [DONE]'' \<notin> set (concat (map split_nl cs) @ ls1)"
  shows "streamChat parse (Resolves r) =
           (deltas_of_lines parse (concat (map split_nl cs) @ ls1), Returned)"
  using assms by (simp add: read_loop_chunks for_lines_sentinel deltas_of_lines_append)

theorem sentinel_termination_witness:
  \<open>split_nl ''data: {"content":"B"}\<newline>data: [DONE]\<newline>data: {"content":"C"}\<newline>''
      = [''data: {"content":"B"}''] @ ''data: [DONE]'' # [''data: {"content":"C"}'', []]
   \<and> ''data: [DONE]''
       \<notin> set (concat (map split_nl [''data: {"content":"A"}\<newline>'']) @ [''data: {"content":"B"}''])
   \<and> streamChat JSON_parse (Resolves \<lparr>ok = True, statusText = ''OK'',
         body = Some (map Chunk [''data: {"content":"A"}\<newline>'']
                  @ Chunk ''data: {"content":"B"}\<newline>data: [DONE]\<newline>data: {"content":"C"}\<newline>''
                  # [Chunk ''data: {"content":"D"}\<newline>'', Done])\<rparr>)
       = ([JString ''A'', JString ''B''], Returned)\<close>
proof -
  let ?r = \<open>\<lparr>ok = True, statusText = ''OK'',
         body = Some (map Chunk [''data: {"content":"A"}\<newline>'']
                  @ Chunk ''data: {"content":"B"}\<newline>data: [DONE]\<newline>data: {"content":"C"}\<newline>''
                  # [Chunk ''data: {"content":"D"}\<newline>'', Done])\<rparr>\<close>
  have h1: "ok ?r" by simp
  have h2: \<open>body ?r = Some (map Chunk [''data: {"content":"A"}\<newline>'']
                  @ Chunk ''data: {"content":"B"}\<newline>data: [DONE]\<newline>data: {"content":"C"}\<newline>''
                  # [Chunk ''data: {"content":"D"}\<newline>'', Done])\<close> by simp
  have h3: \<open>split_nl ''data: {"content":"B"}\<newline>data: [DONE]\<newline>data: {"content":"C"}\<newline>''
      = [''data: {"content":"B"}''] @ ''data: [DONE]'' # [''data: {"content":"C"}'', []]\<close>
    by code_simp
  have h4: \<open>''data: [DONE]''
       \<notin> set (concat (map split_nl [''data: {"content":"A"}\<newline>'']) @ [''data: {"content":"B"}''])\<close>
    by code_simp
  have v: \<open>deltas_of_lines JSON_parse
             (concat (map split_nl [''data: {"content":"A"}\<newline>'']) @ [''data: {"content":"B"}''])
       = [JString ''A'', JString ''B'']\<close>
    by code_simp
  from sentinel_termination [OF h1 h2 h3 h4, of JSON_parse] v
  have c: \<open>streamChat JSON_parse (Resolves ?r) = ([JString ''A'', JString ''B''], Returned)\<close>
    by (simp only:)
  show ?thesis by (rule conjI [OF h3 conjI [OF h4 c]])
qed

text \<open>
  C7 (truncation tolerance). When the input ends after chunks none of which has the sentinel
  line, the generator returns normally, and what it has yielded is the Deltas of the lines of
  all the chunks, in order. The witness is the specification's example: the stream that ends
  after \<^verbatim>\<open>data: {"content":"X"}\<close> yields \<^verbatim>\<open>X\<close> and returns.
\<close>

theorem truncation_tolerance:
  assumes "ok r" and "body r = Some (map Chunk cs @ Done # rs)"
    and "''data: [DONE]'' \<notin> set (concat (map split_nl cs))"
  shows "streamChat parse (Resolves r) =
           (deltas_of_lines parse (concat (map split_nl cs)), Returned)"
  using assms by (simp add: read_loop_chunks)

theorem truncation_tolerance_witness:
  \<open>ok \<lparr>ok = True, statusText = ''OK'',
        body = Some (map Chunk [''data: {"content":"X"}\<newline>\<newline>''] @ Done # [])\<rparr>
   \<and> ''data: [DONE]'' \<notin> set (concat (map split_nl [''data: {"content":"X"}\<newline>\<newline>'']))
   \<and> streamChat JSON_parse (Resolves \<lparr>ok = True, statusText = ''OK'',
         body = Some (map Chunk [''data: {"content":"X"}\<newline>\<newline>''] @ Done # [])\<rparr>)
       = ([JString ''X''], Returned)\<close>
proof -
  let ?r = \<open>\<lparr>ok = True, statusText = ''OK'',
             body = Some (map Chunk [''data: {"content":"X"}\<newline>\<newline>''] @ Done # [])\<rparr>\<close>
  have h1: "ok ?r" by simp
  have h2: \<open>body ?r = Some (map Chunk [''data: {"content":"X"}\<newline>\<newline>''] @ Done # [])\<close>
    by simp
  have h3: \<open>''data: [DONE]'' \<notin> set (concat (map split_nl [''data: {"content":"X"}\<newline>\<newline>'']))\<close>
    by code_simp
  have v: \<open>deltas_of_lines JSON_parse (concat (map split_nl [''data: {"content":"X"}\<newline>\<newline>'']))
             = [JString ''X'']\<close>
    by code_simp
  from truncation_tolerance [OF h1 h2 h3, of JSON_parse] v
  have c: \<open>streamChat JSON_parse (Resolves ?r) = ([JString ''X''], Returned)\<close>
    by (simp only:)
  show ?thesis by (rule conjI [OF h1 conjI [OF h3 c]])
qed

subsection \<open>Failures\<close>

text \<open>
  C6 (transport failure). A response that is not \<^verbatim>\<open>ok\<close> makes the generator throw
  \<^verbatim>\<open>Stream error: \<close> followed by the status text before it yields anything, and the body
  plays no part: the result is the same for every body.
\<close>

theorem transport_failure:
  assumes "\<not> ok r"
  shows "streamChat parse (Resolves r) = ([], Thrown (''Stream error: '' @ statusText r))
         \<and> streamChat parse (Resolves (r\<lparr>body := b\<rparr>)) = streamChat parse (Resolves r)"
  using assms by simp

theorem transport_failure_witness:
  \<open>\<not> ok \<lparr>ok = False, statusText = ''Bad Gateway'',
          body = Some [Chunk ''data: {"content":"A"}\<newline>'', Done]\<rparr>
   \<and> streamChat JSON_parse (Resolves \<lparr>ok = False, statusText = ''Bad Gateway'',
         body = Some [Chunk ''data: {"content":"A"}\<newline>'', Done]\<rparr>)
       = ([], Thrown ''Stream error: Bad Gateway'')\<close>
proof -
  let ?r = \<open>\<lparr>ok = False, statusText = ''Bad Gateway'',
             body = Some [Chunk ''data: {"content":"A"}\<newline>'', Done]\<rparr>\<close>
  have h: "\<not> ok ?r" by simp
  from transport_failure [OF h, of JSON_parse] h show ?thesis by simp
qed

text \<open>
  C5 (malformed-frame resilience), as the code has it. A chunk whose \<^verbatim>\<open>data: \<close> lines are one
  frame that parses to an object with a truthy \<^verbatim>\<open>content\<close> \<open>c\<close> and one frame, other than the
  sentinel, whose payload does not parse, in either order, yields exactly \<open>c\<close>; nothing is
  thrown for it and the loop goes on with the reads that follow.
\<close>

theorem malformed_frame_resilience:
  assumes good: "parse p = Some (JObject kvs)" "map_of kvs ''content'' = Some c" "truthy c"
      "p \<noteq> ''[DONE]''"
    and bad: "parse q = None" "q \<noteq> ''[DONE]''"
    and chunk:
      "filter (\<lambda>l. startsWith l ''data: '') (split_nl chunk) = [data_line p, data_line q]
       \<or> filter (\<lambda>l. startsWith l ''data: '') (split_nl chunk) = [data_line q, data_line p]"
    and resp: "ok r" "body r = Some (Chunk chunk # rest)"
  shows "streamChat parse (Resolves r) =
           (c # fst (read_loop parse rest), snd (read_loop parse rest))"
proof -
  have "for_lines parse (split_nl chunk) = ([c], False)"
    using chunk good bad
    by (subst for_lines_data_only) (auto simp: process_line_data_line)
  with resp show ?thesis by simp
qed

theorem malformed_frame_resilience_witness:
  \<open>JSON_parse ''{"content":"A"}'' = Some (JObject [(''content'', JString ''A'')])
   \<and> JSON_parse ''{oops'' = None
   \<and> filter (\<lambda>l. startsWith l ''data: '') (split_nl ''data: {oops\<newline>\<newline>data: {"content":"A"}\<newline>\<newline>'')
       = [data_line ''{oops'', data_line ''{"content":"A"}'']
   \<and> streamChat JSON_parse (Resolves \<lparr>ok = True, statusText = ''OK'',
         body = Some (Chunk ''data: {oops\<newline>\<newline>data: {"content":"A"}\<newline>\<newline>'' # [Done])\<rparr>)
       = ([JString ''A''], Returned)\<close>
proof -
  let ?chunk = \<open>''data: {oops\<newline>\<newline>data: {"content":"A"}\<newline>\<newline>''\<close>
  let ?r = \<open>\<lparr>ok = True, statusText = ''OK'', body = Some (Chunk ?chunk # [Done])\<rparr>\<close>
  have g1: \<open>JSON_parse ''{"content":"A"}'' = Some (JObject [(''content'', JString ''A'')])\<close>
    by code_simp
  have g2: "map_of [(''content'', JString ''A'')] ''content'' = Some (JString ''A'')" by simp
  have g3: "truthy (JString ''A'')" by simp
  have g4: \<open>''{"content":"A"}'' \<noteq> ''[DONE]''\<close> by simp
  have b1: \<open>JSON_parse ''{oops'' = None\<close> by code_simp
  have b2: \<open>''{oops'' \<noteq> ''[DONE]''\<close> by simp
  have k: \<open>filter (\<lambda>l. startsWith l ''data: '') (split_nl ?chunk)
             = [data_line ''{oops'', data_line ''{"content":"A"}'']\<close>
    by code_simp
  have r1: "ok ?r" by simp
  have r2: "body ?r = Some (Chunk ?chunk # [Done])" by simp
  from malformed_frame_resilience [OF g1 g2 g3 g4 b1 b2 disjI2 [OF k] r1 r2]
  have c: "streamChat JSON_parse (Resolves ?r) = ([JString ''A''], Returned)" by simp
  show ?thesis by (rule conjI [OF g1 conjI [OF b1 conjI [OF k c]]])
qed

text \<open>
  The claim as the specification states it asks a Delta of every well-formed frame with a
  \<^verbatim>\<open>content\<close> field. A frame whose \<^verbatim>\<open>content\<close> is the empty string is one, and the chunk
  that holds it and a malformed frame yields nothing. Nor does a chunk in which the frame
  that does not parse is the sentinel and comes first.
\<close>

theorem empty_content_beside_malformed:
  \<open>JSON_parse ''{"content":""}'' = Some (JObject [(''content'', JString [])])
   \<and> JSON_parse ''{oops'' = None
   \<and> streamChat JSON_parse (Resolves \<lparr>ok = True, statusText = ''OK'',
        body = Some [Chunk ''data: {"content":""}\<newline>\<newline>data: {oops\<newline>\<newline>'', Done]\<rparr>)
      = ([], Returned)
   \<and> JSON_parse ''[DONE]'' = None
   \<and> streamChat JSON_parse (Resolves \<lparr>ok = True, statusText = ''OK'',
        body = Some [Chunk ''data: [DONE]\<newline>\<newline>data: {"content":"A"}\<newline>\<newline>'', Done]\<rparr>)
      = ([], Returned)\<close>
  by code_simp

subsection \<open>Falsy content\<close>

text \<open>
  C10 (falsy content). A frame whose payload parses to an object with a falsy \<^verbatim>\<open>content\<close>
  (the empty string, \<^verbatim>\<open>0\<close>, \<^verbatim>\<open>false\<close>, \<^verbatim>\<open>null\<close>) is skipped, as a frame whose object has no
  \<^verbatim>\<open>content\<close> is; every value the generator yields is truthy, so the empty string is never
  among the Deltas of any stream.
\<close>

theorem falsy_content_dropped:
  assumes "parse p = Some (JObject kvs)" and "map_of kvs ''content'' = Some v"
    and "\<not> truthy v" and "p \<noteq> ''[DONE]''"
    and "parse p' = Some (JObject kvs')" and "map_of kvs' ''content'' = None"
    and "p' \<noteq> ''[DONE]''"
  shows "process_line parse (data_line p) = Skip
       \<and> process_line parse (data_line p') = Skip
       \<and> (\<forall>d \<in> set (fst (streamChat parse f)). truthy d)
       \<and> JString [] \<notin> set (fst (streamChat parse f))"
proof -
  have "JString [] \<notin> set (fst (streamChat parse f))"
    using streamChat_truthy [of parse f] by auto
  moreover have "process_line parse (data_line p) = Skip"
    using assms by (simp add: process_line_data_line)
  moreover have "process_line parse (data_line p') = Skip"
    using assms by (simp add: process_line_data_line)
  ultimately show ?thesis using streamChat_truthy [of parse f] by blast
qed

theorem falsy_content_dropped_witness:
  \<open>JSON_parse ''{"content":""}'' = Some (JObject [(''content'', JString [])])
   \<and> \<not> truthy (JString [])
   \<and> JSON_parse ''{"text":"x"}'' = Some (JObject [(''text'', JString ''x'')])
   \<and> process_line JSON_parse (data_line ''{"content":""}'') = Skip
   \<and> process_line JSON_parse (data_line ''{"text":"x"}'') = Skip
   \<and> JString [] \<notin> set (fst (streamChat JSON_parse (Resolves \<lparr>ok = True, statusText = ''OK'',
        body = Some [Chunk ''data: {"content":""}\<newline>data: {"content":"A"}\<newline>'', Done]\<rparr>)))\<close>
proof -
  have a1: \<open>JSON_parse ''{"content":""}'' = Some (JObject [(''content'', JString [])])\<close>
    by code_simp
  have a2: "map_of [(''content'', JString [])] ''content'' = Some (JString [])" by simp
  have a3: "\<not> truthy (JString [])" by simp
  have a4: \<open>''{"content":""}'' \<noteq> ''[DONE]''\<close> by simp
  have a5: \<open>JSON_parse ''{"text":"x"}'' = Some (JObject [(''text'', JString ''x'')])\<close>
    by code_simp
  have a6: "map_of [(''text'', JString ''x'')] ''content'' = None" by simp
  have a7: \<open>''{"text":"x"}'' \<noteq> ''[DONE]''\<close> by simp
  from falsy_content_dropped [OF a1 a2 a3 a4 a5 a6 a7] a1 a3 a5
  show ?thesis by blast
qed

text \<open>The falsy values of the claim, evaluated: each of these frames yields nothing.\<close>

lemma falsy_content_examples:
  \<open>streamChat JSON_parse (Resolves \<lparr>ok = True, statusText = ''OK'',
      body = Some [Chunk ''data: {"content":""}\<newline>data: {"content":0}\<newline>'',
                   Chunk ''data: {"content":false}\<newline>data: {"content":null}\<newline>'',
                   Chunk ''data: {"other":"x"}\<newline>'', Done]\<rparr>) = ([], Returned)\<close>
  by code_simp

subsection \<open>Order and completeness\<close>

lemma data_line_sentinel: "''data: [DONE]'' = data_line p \<longleftrightarrow> p = ''[DONE]''"
  by (auto simp: data_line_def)

lemma delta_of_line_empty: "delta_of_line parse [] = None"
  by (simp add: delta_of_line_def process_line_empty)

lemma delta_of_data_line:
  assumes "p \<noteq> ''[DONE]''" and "content_text parse p = Some t"
  shows "delta_of_line parse (data_line p) = (if t \<noteq> [] then Some (JString t) else None)"
  using assms
  by (auto simp: delta_of_line_def process_line_data_line content_text_def
           split: option.splits json.splits)

lemma concat_text_strings: "concat_text (map JString (filter (\<lambda>t. t \<noteq> []) ts)) = concat ts"
  by (induction ts) (simp_all add: concat_text_def)

lemma delta_of_line_not_data:
  "\<not> startsWith l ''data: '' \<Longrightarrow> delta_of_line parse l = None"
  by (simp add: delta_of_line_def process_line_def)

lemma deltas_of_lines_data_only:
  "deltas_of_lines parse ls = deltas_of_lines parse (filter (\<lambda>l. startsWith l ''data: '') ls)"
  by (induction ls)
     (auto simp: deltas_of_lines_def List.map_filter_simps delta_of_line_not_data
           split: option.splits)

lemma deltas_of_data_lines: "deltas_of_lines parse (map data_line ps) = frame_deltas parse ps"
  by (induction ps)
     (auto simp: deltas_of_lines_def frame_deltas_def List.map_filter_simps split: option.splits)

lemma startsWith_sentinel: "startsWith ''data: [DONE]'' ''data: ''"
  by (simp add: startsWith_data)

lemma no_sentinel_line:
  assumes "filter (\<lambda>l. startsWith l ''data: '') ls = map data_line ps" and "''[DONE]'' \<notin> set ps"
  shows "''data: [DONE]'' \<notin> set ls"
proof
  assume "''data: [DONE]'' \<in> set ls"
  then have "''data: [DONE]'' \<in> set (filter (\<lambda>l. startsWith l ''data: '') ls)"
    using startsWith_sentinel by simp
  then have "''data: [DONE]'' \<in> data_line ` set ps" using assms(1) by simp
  then obtain p where "p \<in> set ps" "''data: [DONE]'' = data_line p" by blast
  then show False using assms(2) by (simp add: data_line_sentinel)
qed

lemma frame_deltas_Cons:
  "frame_deltas parse (p # ps) =
     (case delta_of_line parse (data_line p) of None \<Rightarrow> frame_deltas parse ps
      | Some c \<Rightarrow> c # frame_deltas parse ps)"
  by (simp add: frame_deltas_def List.map_filter_simps split: option.splits)

lemma frame_deltas_Nil: "frame_deltas parse [] = []"
  by (simp add: frame_deltas_def List.map_filter_simps)

lemma concat_text_Cons_text: "concat_text (JString t # ds) = t @ concat_text ds"
  by (simp add: concat_text_def)

lemma delta_of_data_line_unfold:
  "p \<noteq> ''[DONE]'' \<Longrightarrow>
   delta_of_line parse (data_line p) =
     (case parse p of
        None \<Rightarrow> None
      | Some parsed \<Rightarrow>
          (case get_content parsed of
             Inl e \<Rightarrow> None
           | Inr None \<Rightarrow> None
           | Inr (Some c) \<Rightarrow> if truthy c then Some c else None))"
  by (simp add: delta_of_line_def process_line_data_line split: option.splits sum.splits)

lemma no_delta_text:
  assumes "p \<noteq> ''[DONE]''" and "delta_of_line parse (data_line p) = None"
  shows "content_text parse p = None \<or> content_text parse p = Some []"
proof (cases "parse p")
  case None
  then show ?thesis by (simp add: content_text_def)
next
  case (Some j)
  show ?thesis
  proof (cases j)
    case (JObject kvs)
    show ?thesis
    proof (cases "map_of kvs ''content''")
      case None
      with Some JObject show ?thesis by (simp add: content_text_def)
    next
      case (Some c)
      with \<open>parse p = Some j\<close> JObject assms have "\<not> truthy c"
        by (simp add: delta_of_data_line_unfold split: if_splits)
      with Some \<open>parse p = Some j\<close> JObject show ?thesis
        by (cases c) (simp_all add: content_text_def)
    qed
  qed (insert Some, simp_all add: content_text_def)
qed

lemma text_delta_text:
  assumes "p \<noteq> ''[DONE]''" and "delta_of_line parse (data_line p) = Some (JString t)"
  shows "content_text parse p = Some t"
proof (cases "parse p")
  case None
  with assms show ?thesis by (simp add: delta_of_data_line_unfold)
next
  case (Some j)
  show ?thesis
  proof (cases j)
    case (JObject kvs)
    with Some assms show ?thesis
      by (simp add: delta_of_data_line_unfold content_text_def split: option.splits if_splits)
  qed (insert Some assms, simp_all add: delta_of_data_line_unfold)
qed

lemma concat_text_frames:
  "''[DONE]'' \<notin> set ps \<Longrightarrow> list_all is_text (frame_deltas parse ps) \<Longrightarrow>
   concat_text (frame_deltas parse ps) = concat (List.map_filter (content_text parse) ps)"
proof (induction ps)
  case Nil
  show ?case by (simp add: frame_deltas_Nil concat_text_def)
next
  case (Cons p ps)
  from Cons.prems(1) have ne: "p \<noteq> ''[DONE]''" and ns: "''[DONE]'' \<notin> set ps" by auto
  show ?case
  proof (cases "delta_of_line parse (data_line p)")
    case None
    have fd: "frame_deltas parse (p # ps) = frame_deltas parse ps"
      by (simp only: frame_deltas_Cons None option.case)
    have ct: "concat (List.map_filter (content_text parse) (p # ps))
                = concat (List.map_filter (content_text parse) ps)"
      using no_delta_text [OF ne None] by (elim disjE) simp_all
    from Cons.prems(2) have "list_all is_text (frame_deltas parse ps)" by (simp only: fd)
    from Cons.IH [OF ns this] show ?thesis by (simp only: fd ct)
  next
    case (Some c)
    have fd: "frame_deltas parse (p # ps) = c # frame_deltas parse ps"
      by (simp only: frame_deltas_Cons Some option.case)
    from Cons.prems(2) have c: "is_text c" and rest: "list_all is_text (frame_deltas parse ps)"
      by (simp_all add: fd)
    from c obtain t where t: "c = JString t" by (cases c) simp_all
    have "content_text parse p = Some t"
      using ne Some unfolding t by (rule text_delta_text)
    then have ct: "concat (List.map_filter (content_text parse) (p # ps))
                = t @ concat (List.map_filter (content_text parse) ps)"
      by simp
    from Cons.IH [OF ns rest] show ?thesis
      by (simp only: fd ct t concat_text_Cons_text)
  qed
qed

lemma frame_deltas_texts:
  "''[DONE]'' \<notin> set ps \<Longrightarrow> map (content_text parse) ps = map Some ts \<Longrightarrow>
   frame_deltas parse ps = map JString (filter (\<lambda>t. t \<noteq> []) ts)"
proof (induction ps arbitrary: ts)
  case Nil
  then show ?case by (simp add: frame_deltas_Nil)
next
  case (Cons p ps)
  then obtain t ts' where ts: "ts = t # ts'" "content_text parse p = Some t"
      "map (content_text parse) ps = map Some ts'"
    by (cases ts) auto
  from Cons.prems(1) have ne: "p \<noteq> ''[DONE]''" and ns: "''[DONE]'' \<notin> set ps" by auto
  have "delta_of_line parse (data_line p) = (if t \<noteq> [] then Some (JString t) else None)"
    using ne ts(2) by (rule delta_of_data_line)
  with Cons.IH [OF ns ts(3)] ts(1) show ?case by (simp add: frame_deltas_Cons)
qed

text \<open>
  C9 (Delta ordering and completeness), as the code has it. Take any stream, and let its
  frames be the lines of its chunks that begin with \<^verbatim>\<open>data: \<close>, in order, none of them the
  sentinel; a frame counts only where it lies whole within one chunk. The generator yields
  the Deltas of these frames, at most one for each, in the order of the frames, before it
  goes on with the reads that follow. When all these Deltas are strings, their concatenation
  is the concatenation of the texts that the frames carry. When every frame carries a text,
  the Deltas are the non-empty texts in order and concatenate to the whole text. The witness
  is the specification's example with a comment line and single line feeds in between:
  \<^verbatim>\<open>Hel\<close>, \<^verbatim>\<open>lo \<close>, \<^verbatim>\<open>world\<close> in three chunks give \<^verbatim>\<open>Hello world\<close>.
\<close>

theorem deltas_in_frame_order:
  assumes "ok r" and "body r = Some (map Chunk cs @ rest)"
    and "filter (\<lambda>l. startsWith l ''data: '') (concat (map split_nl cs)) = map data_line ps"
    and "''[DONE]'' \<notin> set ps"
  shows "streamChat parse (Resolves r) =
           (frame_deltas parse ps @ fst (read_loop parse rest), snd (read_loop parse rest))
       \<and> (list_all is_text (frame_deltas parse ps) \<longrightarrow>
            concat_text (frame_deltas parse ps) = concat (List.map_filter (content_text parse) ps))
       \<and> (map (content_text parse) ps = map Some ts \<longrightarrow>
            frame_deltas parse ps = map JString (filter (\<lambda>t. t \<noteq> []) ts)
            \<and> concat_text (frame_deltas parse ps) = concat ts)"
proof -
  have ns: "''data: [DONE]'' \<notin> set (concat (map split_nl cs))"
    using assms(3,4) by (rule no_sentinel_line)
  have "deltas_of_lines parse (concat (map split_nl cs)) = frame_deltas parse ps"
    using deltas_of_lines_data_only [of parse "concat (map split_nl cs)"] assms(3)
    by (simp add: deltas_of_data_lines)
  with read_loop_chunks [OF ns, of parse rest] assms(1,2)
  have a: "streamChat parse (Resolves r) =
           (frame_deltas parse ps @ fst (read_loop parse rest), snd (read_loop parse rest))"
    by simp
  have b: "list_all is_text (frame_deltas parse ps) \<longrightarrow>
            concat_text (frame_deltas parse ps) = concat (List.map_filter (content_text parse) ps)"
    using concat_text_frames [OF assms(4)] by blast
  have c: "map (content_text parse) ps = map Some ts \<longrightarrow>
            frame_deltas parse ps = map JString (filter (\<lambda>t. t \<noteq> []) ts)
            \<and> concat_text (frame_deltas parse ps) = concat ts"
    using frame_deltas_texts [OF assms(4), of parse ts] by (simp add: concat_text_strings)
  from a b c show ?thesis by blast
qed

theorem deltas_in_frame_order_witness:
  \<open>filter (\<lambda>l. startsWith l ''data: '')
      (concat (map split_nl [''data: {"content":"Hel"}\<newline>\<newline>'',
                             '': keep-alive\<newline>data: {"content":"lo "}\<newline>'',
                             ''data: {"content":"world"}'']))
     = map data_line [''{"content":"Hel"}'', ''{"content":"lo "}'', ''{"content":"world"}'']
   \<and> map (content_text JSON_parse) [''{"content":"Hel"}'', ''{"content":"lo "}'', ''{"content":"world"}'']
     = map Some [''Hel'', ''lo '', ''world'']
   \<and> streamChat JSON_parse (Resolves \<lparr>ok = True, statusText = ''OK'',
        body = Some (map Chunk [''data: {"content":"Hel"}\<newline>\<newline>'',
                                '': keep-alive\<newline>data: {"content":"lo "}\<newline>'',
                                ''data: {"content":"world"}''] @ [Done])\<rparr>)
       = ([JString ''Hel'', JString ''lo '', JString ''world''], Returned)
   \<and> concat_text [JString ''Hel'', JString ''lo '', JString ''world''] = ''Hello world''\<close>
proof -
  let ?cs = \<open>[''data: {"content":"Hel"}\<newline>\<newline>'',
              '': keep-alive\<newline>data: {"content":"lo "}\<newline>'',
              ''data: {"content":"world"}'']\<close>
  let ?ps = \<open>[''{"content":"Hel"}'', ''{"content":"lo "}'', ''{"content":"world"}'']\<close>
  let ?r = \<open>\<lparr>ok = True, statusText = ''OK'', body = Some (map Chunk ?cs @ [Done])\<rparr>\<close>
  have h1: "ok ?r" by simp
  have h2: "body ?r = Some (map Chunk ?cs @ [Done])" by simp
  have h3: "filter (\<lambda>l. startsWith l ''data: '') (concat (map split_nl ?cs)) = map data_line ?ps"
    by code_simp
  have h4: "''[DONE]'' \<notin> set ?ps" by simp
  have h5: "map (content_text JSON_parse) ?ps = map Some [''Hel'', ''lo '', ''world'']"
    by code_simp
  have t: "list_all is_text (map JString [''Hel'', ''lo '', ''world''])" by simp
  have c: "concat [''Hel'', ''lo '', ''world''] = ''Hello world''" by simp
  note T = deltas_in_frame_order [OF h1 h2 h3 h4, of JSON_parse "[''Hel'', ''lo '', ''world'']"]
  note U = T [THEN conjunct2, THEN conjunct2, THEN mp, OF h5, THEN conjunct1]
  have f: "map JString (filter (\<lambda>t. t \<noteq> []) [''Hel'', ''lo '', ''world''])
             = [JString ''Hel'', JString ''lo '', JString ''world'']"
    by simp
  have fd: "frame_deltas JSON_parse ?ps = [JString ''Hel'', JString ''lo '', JString ''world'']"
    using U f by (rule trans)
  have rl: "read_loop JSON_parse [Done] = ([], Returned)" by simp
  have a: "streamChat JSON_parse (Resolves ?r)
          = ([JString ''Hel'', JString ''lo '', JString ''world''], Returned)"
    using T [THEN conjunct1] by (simp only: fd rl fst_conv snd_conv append_Nil2)
  have b: "concat_text [JString ''Hel'', JString ''lo '', JString ''world''] = ''Hello world''"
    by (simp add: concat_text_def)
  show ?thesis by (rule conjI [OF h3 conjI [OF h5 conjI [OF a b]]])
qed

text \<open>
  For every stream the claim fails: the same three frames in two chunks, the boundary inside
  the second frame, lose the Delta of that frame, and the concatenation is \<^verbatim>\<open>Helworld\<close>.
\<close>

theorem delta_lost_across_chunks:
  \<open>''data: {"content":"Hel"}\<newline>\<newline>data: {"content":"lo '' @ ''"}\<newline>\<newline>data: {"content":"world"}\<newline>\<newline>''
     = wire [''{"content":"Hel"}'', ''{"content":"lo "}'', ''{"content":"world"}'']
   \<and> streamChat JSON_parse (Resolves \<lparr>ok = True, statusText = ''OK'',
        body = Some [Chunk ''data: {"content":"Hel"}\<newline>\<newline>data: {"content":"lo '',
                     Chunk ''"}\<newline>\<newline>data: {"content":"world"}\<newline>\<newline>'', Done]\<rparr>)
       = ([JString ''Hel'', JString ''world''], Returned)
   \<and> concat_text [JString ''Hel'', JString ''world''] = ''Helworld''\<close>
  by code_simp


section \<open>Properties of the scheduler\<close>

subsection \<open>The timer handle\<close>

lemma handle_inv_mount: "handle_inv (mount content)"
  by (simp add: handle_inv_def mount_def)

lemma input_step:
  assumes "handle_inv s" and "\<not> isComposing s"
  shows "handle_inv (step s (Input v c))"
    and "\<not> isComposing (step s (Input v c))"
    and "calls (step s (Input v c)) = calls s"
    and "requests (step s (Input v c)) = requests s"
    and "ghostTimeoutRef (step s (Input v c)) = Some (nextTimer s)"
    and "nextTimer (step s (Input v c)) = Suc (nextTimer s)"
    and "selectionStart (step s (Input v c)) = c"
    and "ghost_timers (step s (Input v c)) = [(nextTimer s, GhostCallback v)]"
    and "localContent (step s (Input v c)) = v"
  using assms
  by (auto simp: handle_inv_def handleInput_def setTimeout_def clearTimeout_def Let_def
        ghost_timers_def list_all_iff filter_empty_conv distinct_map_filter
        split: option.splits prod.splits)
     fastforce+

lemma handle_inv_step: "handle_inv s \<Longrightarrow> handle_inv (step s e)"
proof (cases e)
  case (Input v c)
  assume "handle_inv s"
  then show ?thesis unfolding Input
    by (auto simp: handle_inv_def handleInput_def setTimeout_def clearTimeout_def Let_def
          list_all_iff distinct_map_filter split: option.splits prod.splits)
       fastforce+
next
  case (Fire i)
  assume "handle_inv s"
  then show ?thesis unfolding Fire
    by (auto simp: handle_inv_def ghost_fire_def clearTimeout_def Let_def
          list_all_iff distinct_map_filter split: option.splits callback.splits)
next
  case (Reply q r)
  assume "handle_inv s"
  then show ?thesis unfolding Reply
    by (auto simp: handle_inv_def ghost_resume_def Let_def split: option.splits)
next
  case (KeyDown k)
  assume "handle_inv s"
  then show ?thesis unfolding KeyDown
    by (auto simp: handle_inv_def handleKeyDown_def setTimeout_def Let_def list_all_iff
          split: option.splits)
qed (auto simp: handle_inv_def)

lemma handle_inv_run: "handle_inv s \<Longrightarrow> handle_inv (run s es)"
  unfolding run_def by (induction es arbitrary: s) (auto simp: handle_inv_step)

lemma run_append: "run s (es @ fs) = run (run s es) fs"
  by (simp add: run_def)

lemma run_Cons: "run s (e # es) = run (step s e) es"
  by (simp add: run_def)

lemma run_Nil: "run s [] = s"
  by (simp add: run_def)

lemma burst_run:
  assumes "handle_inv s" and "\<not> isComposing s"
  shows "handle_inv (run s (burst inputs)) \<and> \<not> isComposing (run s (burst inputs))
       \<and> calls (run s (burst inputs)) = calls s
       \<and> nextTimer (run s (burst inputs)) = nextTimer s + length inputs"
  using assms
proof (induction inputs arbitrary: s)
  case Nil
  then show ?case by (simp add: burst_def run_Nil)
next
  case (Cons a inputs)
  obtain v c where a: "a = (v, c)" by (cases a)
  have "burst (a # inputs) = Input v c # burst inputs" by (simp add: burst_def a)
  with Cons.IH [of "step s (Input v c)"] input_step [OF Cons.prems, of v c]
  show ?case by (simp add: run_Cons)
qed

lemma fire_ghost:
  assumes "handle_inv s" and "ghost_timers s = [(i, GhostCallback v)]"
  shows "calls (step s (Fire i)) = calls s @ [(v, selectionStart s)]"
    and "ghost_timers (step s (Fire i)) = []"
    and "requests (step s (Fire i)) = requests s @ [(nextRequest s, v, selectionStart s)]"
proof -
  have "(i, GhostCallback v) \<in> set (ghost_timers s)" using assms(2) by simp
  then have mem: "(i, GhostCallback v) \<in> set (timers s)" by (simp add: ghost_timers_def)
  have d: "distinct (map fst (timers s))" using assms(1) by (simp add: handle_inv_def)
  from mem d have m: "map_of (timers s) i = Some (GhostCallback v)" by simp
  show "calls (step s (Fire i)) = calls s @ [(v, selectionStart s)]"
    using m by (simp add: ghost_fire_def clearTimeout_def Let_def)
  show "requests (step s (Fire i)) = requests s @ [(nextRequest s, v, selectionStart s)]"
    using m by (simp add: ghost_fire_def clearTimeout_def Let_def)
  have "filter (\<lambda>(j, cb). j \<noteq> i) (ghost_timers s) = []"
    using assms(2) by simp
  then show "ghost_timers (step s (Fire i)) = []"
    using m by (auto simp: ghost_fire_def clearTimeout_def ghost_timers_def filter_empty_conv Let_def)
qed

lemma fire_other:
  assumes "handle_inv s" and "list_all (\<lambda>(i, cb). i \<noteq> j) (ghost_timers s)"
  shows "calls (step s (Fire j)) = calls s"
    and "ghost_timers (step s (Fire j)) = ghost_timers s"
proof -
  have d: "distinct (map fst (timers s))" using assms(1) by (simp add: handle_inv_def)
  have ng: "map_of (timers s) j \<noteq> Some (GhostCallback v)" for v
  proof
    assume "map_of (timers s) j = Some (GhostCallback v)"
    then have "(j, GhostCallback v) \<in> set (timers s)" by (rule map_of_SomeD)
    then have "(j, GhostCallback v) \<in> set (ghost_timers s)" by (simp add: ghost_timers_def)
    with assms(2) show False by (auto simp: list_all_iff)
  qed
  show "calls (step s (Fire j)) = calls s"
    using ng by (auto simp: clearTimeout_def split: option.splits callback.splits)
  have "filter (\<lambda>(i, cb). i \<noteq> j) (ghost_timers s) = ghost_timers s"
    using assms(2) by (auto simp: list_all_iff intro: filter_True)
  then have "filter (\<lambda>(i, cb). is_ghost cb) (filter (\<lambda>(i, cb). i \<noteq> j) (timers s)) = ghost_timers s"
    by (simp add: ghost_timers_def split_def conj_commute)
  then show "ghost_timers (step s (Fire j)) = ghost_timers s"
    using ng by (auto simp: clearTimeout_def ghost_timers_def split: option.splits callback.splits)
qed

lemma fires_without_ghost:
  "handle_inv s \<Longrightarrow> ghost_timers s = [] \<Longrightarrow> calls (run s (map Fire js)) = calls s"
proof (induction js arbitrary: s)
  case Nil
  show ?case by (simp add: run_Nil)
next
  case (Cons j js)
  have "calls (step s (Fire j)) = calls s" "ghost_timers (step s (Fire j)) = []"
    using fire_other [of s j] Cons.prems by simp_all
  with Cons.IH [of "step s (Fire j)"] handle_inv_step [OF Cons.prems(1), of "Fire j"]
  show ?case by (simp add: run_Cons del: step.simps)
qed

lemma fires_with_ghost:
  "handle_inv s \<Longrightarrow> ghost_timers s = [(i, GhostCallback v)] \<Longrightarrow>
   map fst (calls (run s (map Fire js))) = map fst (calls s) @ (if i \<in> set js then [v] else [])"
proof (induction js arbitrary: s)
  case Nil
  show ?case by (simp add: run_Nil)
next
  case (Cons j js)
  note inv' = handle_inv_step [OF Cons.prems(1), of "Fire j"]
  show ?case
  proof (cases "j = i")
    case True
    note f = fire_ghost [OF Cons.prems]
    have "calls (run (step s (Fire i)) (map Fire js)) = calls (step s (Fire i))"
      using inv' f(2) True by (intro fires_without_ghost) simp_all
    with f(1) True show ?thesis by (simp add: run_Cons del: step.simps)
  next
    case False
    then have "list_all (\<lambda>(i, cb). i \<noteq> j) (ghost_timers s)"
      using Cons.prems(2) by simp
    from fire_other [OF Cons.prems(1) this] Cons.prems(2)
    have "calls (step s (Fire j)) = calls s"
        "ghost_timers (step s (Fire j)) = [(i, GhostCallback v)]"
      by simp_all
    with Cons.IH [OF inv' this(2)] False show ?thesis
      by (simp add: run_Cons del: step.simps)
  qed
qed

lemma composing_input:
  assumes "handle_inv s" and "isComposing s"
  shows "ghost_timers (step s (Input v c)) = []"
    and "calls (step s (Input v c)) = calls s"
    and "handle_inv (step s (Input v c))"
  using assms
  by (auto simp: handle_inv_def handleInput_def clearTimeout_def Let_def
        ghost_timers_def list_all_iff filter_empty_conv distinct_map_filter
        split: option.splits prod.splits)
     fastforce+

lemma trim_Nil: "trim [] = []"
  by (simp add: trim_def)

lemma map_of_filter_other:
  "q' \<noteq> q \<Longrightarrow> map_of (filter (\<lambda>(j, x). j \<noteq> q') xs) q = map_of xs q"
  by (induction xs) auto

lemma request_persists:
  assumes "map_of (requests s) q = Some x" and "\<not> is_reply_to q e"
  shows "map_of (requests (step s e)) q = Some x"
proof (cases e)
  case (Input v c)
  with assms show ?thesis
    by (simp add: handleInput_def setTimeout_def clearTimeout_def Let_def split: option.splits)
next
  case (Fire i)
  with assms show ?thesis
    by (simp add: ghost_fire_def clearTimeout_def Let_def split: option.splits callback.splits)
next
  case (Reply q' r)
  with assms have ne: "q' \<noteq> q" by simp
  have "map_of (filter (\<lambda>(j, x). j \<noteq> q') (requests s)) q = map_of (requests s) q"
    using ne by (rule map_of_filter_other)
  with assms Reply show ?thesis
    by (simp add: ghost_resume_def Let_def split: option.splits)
next
  case (KeyDown k)
  with assms show ?thesis
    by (simp add: handleKeyDown_def setTimeout_def Let_def split: option.splits)
qed (use assms in simp_all)

lemma request_persists_run:
  "map_of (requests s) q = Some x \<Longrightarrow> list_all (\<lambda>e. \<not> is_reply_to q e) es \<Longrightarrow>
   map_of (requests (run s es)) q = Some x"
  by (induction es arbitrary: s) (simp_all add: run_Nil run_Cons request_persists)

lemma reply_step:
  assumes "map_of (requests s) q = Some (v, c)"
  shows "ghostSuggestion (step s (Reply q r)) =
           (case r of
              Resolve sug \<Rightarrow>
                if trim sug \<noteq> [] \<and> c = length v
                then Some \<lparr>ghost_text = sug, ghost_position = c\<rparr>
                else ghostSuggestion s
            | ResolveOther \<Rightarrow> ghostSuggestion s
            | Reject \<Rightarrow> ghostSuggestion s)"
    and "localContent (step s (Reply q r)) = localContent s"
    and "selectionStart (step s (Reply q r)) = selectionStart s"
    and "timers (step s (Reply q r)) = timers s"
    and "calls (step s (Reply q r)) = calls s"
  using assms trim_Nil
  by (auto simp: ghost_resume_def generateGhostSuggestion_def Let_def split: reply.splits)

lemma keydown_step:
  assumes "ghostSuggestion s = Some g" and "k = Tab \<or> k = Escape"
  shows "ghostSuggestion (step s (KeyDown k)) = None"
    and "localContent (step s (KeyDown k))
           = (if k = Tab then localContent s @ ghost_text g else localContent s)"
    and "ghostTimeoutRef (step s (KeyDown k)) = ghostTimeoutRef s"
    and "ghost_timers (step s (KeyDown k)) = ghost_timers s"
    and "requests (step s (KeyDown k)) = requests s"
    and "calls (step s (KeyDown k)) = calls s"
  using assms
  by (auto simp: handleKeyDown_def setTimeout_def Let_def ghost_timers_def)

subsection \<open>Debounce\<close>

text \<open>
  C3 (debounce collapse), as the code has it. From a state that satisfies the invariant of
  the timer handle, as every state reached from \<open>mount\<close> does, and in which no composition is
  in progress, a burst of one or more input events issues no call while it lasts and leaves
  exactly one pending timeout of \<^verbatim>\<open>handleInput\<close>, which holds the content of the last event;
  when that timeout fires next, exactly one call is issued, with the content and the caret
  position of the last event, and no such timeout is left. Whichever timeouts fire after the
  burst, in whatever order, one call is issued if that timeout is among them and none
  otherwise, and its text is the content of the last event. Each input event clears the
  timeout of the handle before it arms a new one.
\<close>

theorem debounce_collapse:
  assumes "handle_inv s" and "\<not> isComposing s"
  shows "calls (run s (burst (inputs @ [(v, c)]))) = calls s
       \<and> ghost_timers (run s (burst (inputs @ [(v, c)])))
           = [(nextTimer s + length inputs, GhostCallback v)]
       \<and> calls (run s (burst (inputs @ [(v, c)]) @ [Fire (nextTimer s + length inputs)]))
           = calls s @ [(v, c)]
       \<and> ghost_timers (run s (burst (inputs @ [(v, c)]) @ [Fire (nextTimer s + length inputs)])) = []
       \<and> map fst (calls (run s (burst (inputs @ [(v, c)]) @ map Fire js)))
           = map fst (calls s) @ (if nextTimer s + length inputs \<in> set js then [v] else [])"
proof -
  let ?m = "run s (burst inputs)"
  let ?s' = "run s (burst (inputs @ [(v, c)]))"
  from burst_run [OF assms, of inputs]
  have m: "handle_inv ?m" "\<not> isComposing ?m" "calls ?m = calls s"
      "nextTimer ?m = nextTimer s + length inputs"
    by simp_all
  have s': "?s' = step ?m (Input v c)"
    by (simp add: burst_def run_append run_Cons run_Nil)
  note st = input_step [OF m(1) m(2), of v c]
  have inv': "handle_inv ?s'" using st(1) s' by simp
  have gt: "ghost_timers ?s' = [(nextTimer s + length inputs, GhostCallback v)]"
    using st(8) s' m(4) by simp
  have sel: "selectionStart ?s' = c" using st(7) s' by simp
  have cs: "calls ?s' = calls s" using st(3) s' m(3) by simp
  note f = fire_ghost [OF inv' gt]
  note g = fires_with_ghost [OF inv' gt, of js]
  show ?thesis
    using cs gt f(1) f(2) sel g
    by (simp add: run_append [of s "burst (inputs @ [(v, c)])"] run_Cons run_Nil)
qed

theorem debounce_collapse_witness:
  "calls (run (mount []) (burst ([(''h'', 1), (''he'', 2)] @ [(''hel'', 3)]))) = []
   \<and> ghost_timers (run (mount []) (burst ([(''h'', 1), (''he'', 2)] @ [(''hel'', 3)])))
       = [(3, GhostCallback ''hel'')]
   \<and> calls (run (mount []) (burst ([(''h'', 1), (''he'', 2)] @ [(''hel'', 3)]) @ [Fire 3]))
       = [(''hel'', 3)]
   \<and> map fst (calls (run (mount []) (burst ([(''h'', 1), (''he'', 2)] @ [(''hel'', 3)])
        @ map Fire [1, 2, 3, 3]))) = [''hel'']"
proof -
  have h1: "handle_inv (mount [])" by (rule handle_inv_mount)
  have h2: "\<not> isComposing (mount [])" by (simp add: mount_def)
  have n: "nextTimer (mount []) + length [(''h'', 1::nat), (''he'', 2)] = 3"
    by (simp add: mount_def)
  have c: "calls (mount []) = []" by (simp add: mount_def)
  from debounce_collapse [OF h1 h2, of "[(''h'', 1), (''he'', 2)]" "''hel''" 3 "[1, 2, 3, 3]"]
  show ?thesis unfolding n c by simp
qed

text \<open>
  Without the condition on composition the claim fails: \<^verbatim>\<open>handleInput\<close> arms the timeout only
  \<^verbatim>\<open>if (!isComposing)\<close>. An input event during a composition clears the pending timeout and
  arms none (\<open>composing_input\<close>), and no call is ever issued for it.
\<close>

theorem no_call_while_composing:
  "timers (run (mount []) [CompositionStart, Input ''k'' 1, Input ''ka'' 2]) = []
   \<and> calls (run (mount []) [CompositionStart, Input ''k'' 1, Input ''ka'' 2, Fire 1, Fire 2]) = []"
  by code_simp

subsection \<open>Results that arrive late\<close>

text \<open>
  C2 (staleness), as the code has it. A call in flight holds the content \<open>v\<close> of the input
  event that armed its timer and the caret position \<open>c\<close> read when the timer fired. Whatever
  happens before its answer (edits, caret moves, keys, other timers and answers), the answer
  is applied exactly when it is a string with a character that is not white space and
  \<open>c = length v\<close>; the content and the caret at the time of the answer play no part. An answer
  that is not applied changes nothing and raises nothing.
\<close>

theorem reply_applied_by_captured_values:
  assumes "map_of (requests s) q = Some (v, c)"
    and "list_all (\<lambda>e. \<not> is_reply_to q e) es"
  shows "ghostSuggestion (run s (es @ [Reply q r])) =
           (case r of
              Resolve sug \<Rightarrow>
                if trim sug \<noteq> [] \<and> c = length v
                then Some \<lparr>ghost_text = sug, ghost_position = c\<rparr>
                else ghostSuggestion (run s es)
            | ResolveOther \<Rightarrow> ghostSuggestion (run s es)
            | Reject \<Rightarrow> ghostSuggestion (run s es))
       \<and> localContent (run s (es @ [Reply q r])) = localContent (run s es)
       \<and> timers (run s (es @ [Reply q r])) = timers (run s es)
       \<and> calls (run s (es @ [Reply q r])) = calls (run s es)"
  using reply_step [OF request_persists_run [OF assms], of r]
  by (simp add: run_append run_Cons run_Nil)

theorem reply_applied_by_captured_values_witness:
  "map_of (requests (run (mount []) [Input ''a'' 1, Fire 1])) 1 = Some (''a'', 1)
   \<and> ghostSuggestion (run (run (mount []) [Input ''a'' 1, Fire 1])
        ([Input ''ab'' 2, Select 0 0, Input ''abc'' 3] @ [Reply 1 (Resolve ''xyz'')]))
       = Some \<lparr>ghost_text = ''xyz'', ghost_position = 1\<rparr>"
proof -
  have h1: "map_of (requests (run (mount []) [Input ''a'' 1, Fire 1])) 1 = Some (''a'', 1)"
    by code_simp
  have h2: "list_all (\<lambda>e. \<not> is_reply_to 1 e) [Input ''ab'' 2, Select 0 0, Input ''abc'' 3]"
    by simp
  have t: "trim ''xyz'' \<noteq> []" by code_simp
  from reply_applied_by_captured_values [OF h1 h2, of "Resolve ''xyz''"] t h1
  show ?thesis by simp
qed

text \<open>
  The claim as the specification states it fails: the content changes from \<^verbatim>\<open>a\<close> to \<^verbatim>\<open>ab\<close>
  while the call for \<^verbatim>\<open>a\<close> is in flight, and its answer is applied.
\<close>

theorem stale_reply_applied:
  "localContent (run (mount []) [Input ''a'' 1, Fire 1, Input ''ab'' 2, Reply 1 (Resolve ''xyz'')]) = ''ab''
   \<and> calls (run (mount []) [Input ''a'' 1, Fire 1, Input ''ab'' 2, Reply 1 (Resolve ''xyz'')]) = [(''a'', 1)]
   \<and> ghostSuggestion (run (mount []) [Input ''a'' 1, Fire 1, Input ''ab'' 2, Reply 1 (Resolve ''xyz'')])
       = Some \<lparr>ghost_text = ''xyz'', ghost_position = 1\<rparr>"
  by code_simp

subsection \<open>Dismissing and accepting\<close>

text \<open>
  C8 (explicit cancellation), as the code has it. With a suggestion displayed, Escape and Tab
  clear it at once, and Tab appends its text to the content. \<^verbatim>\<open>handleKeyDown\<close> touches neither
  the timer handle nor the pending timeout of \<^verbatim>\<open>handleInput\<close> nor the calls in flight: they
  are as before. If a call is in flight, its answer is applied afterwards under the same
  condition as ever; if a timeout of \<^verbatim>\<open>handleInput\<close> is pending, it still fires and issues
  its call.
\<close>

theorem dismiss_or_accept:
  assumes "ghostSuggestion s = Some g" and "k = Tab \<or> k = Escape"
  shows "ghostSuggestion (step s (KeyDown k)) = None
       \<and> localContent (step s (KeyDown k))
           = (if k = Tab then localContent s @ ghost_text g else localContent s)
       \<and> ghostTimeoutRef (step s (KeyDown k)) = ghostTimeoutRef s
       \<and> ghost_timers (step s (KeyDown k)) = ghost_timers s
       \<and> requests (step s (KeyDown k)) = requests s
       \<and> (map_of (requests s) q = Some (v, c) \<longrightarrow>
            ghostSuggestion (run s [KeyDown k, Reply q r])
              = (case r of
                   Resolve sug \<Rightarrow>
                     if trim sug \<noteq> [] \<and> c = length v
                     then Some \<lparr>ghost_text = sug, ghost_position = c\<rparr>
                     else None
                 | ResolveOther \<Rightarrow> None
                 | Reject \<Rightarrow> None))
       \<and> (handle_inv s \<and> ghost_timers s = [(i, GhostCallback w)] \<longrightarrow>
            map fst (calls (run s [KeyDown k, Fire i])) = map fst (calls s) @ [w])"
proof -
  note k = keydown_step [OF assms]
  have r: "ghostSuggestion (run s [KeyDown k, Reply q r])
              = (case r of
                   Resolve sug \<Rightarrow>
                     if trim sug \<noteq> [] \<and> c = length v
                     then Some \<lparr>ghost_text = sug, ghost_position = c\<rparr>
                     else None
                 | ResolveOther \<Rightarrow> None
                 | Reject \<Rightarrow> None)"
    if "map_of (requests s) q = Some (v, c)"
  proof -
    have "map_of (requests (step s (KeyDown k))) q = Some (v, c)"
      using k(5) that by simp
    from reply_step(1) [OF this, of r] k(1) show ?thesis
      by (simp add: run_Cons run_Nil del: step.simps split: reply.splits)
  qed
  have f: "map fst (calls (run s [KeyDown k, Fire i])) = map fst (calls s) @ [w]"
    if "handle_inv s" "ghost_timers s = [(i, GhostCallback w)]"
  proof -
    have inv': "handle_inv (step s (KeyDown k))" using that(1) by (rule handle_inv_step)
    have gt: "ghost_timers (step s (KeyDown k)) = [(i, GhostCallback w)]"
      using k(4) that(2) by simp
    from fire_ghost(1) [OF inv' gt] k(6) show ?thesis
      by (simp add: run_Cons run_Nil del: step.simps)
  qed
  from k(1-5) r f show ?thesis by (simp del: step.simps)
qed

theorem dismiss_or_accept_witness:
  "ghostSuggestion (run (mount []) [Input ''a'' 1, Fire 1, Input ''ab'' 2, Fire 2, Input ''abc'' 3,
       Reply 1 (Resolve ''x'')])
     = Some \<lparr>ghost_text = ''x'', ghost_position = 1\<rparr>
   \<and> map_of (requests (run (mount []) [Input ''a'' 1, Fire 1, Input ''ab'' 2, Fire 2, Input ''abc'' 3,
       Reply 1 (Resolve ''x'')])) 2
     = Some (''ab'', 2)
   \<and> ghost_timers (run (mount []) [Input ''a'' 1, Fire 1, Input ''ab'' 2, Fire 2, Input ''abc'' 3,
       Reply 1 (Resolve ''x'')])
     = [(3, GhostCallback ''abc'')]
   \<and> ghostSuggestion (step (run (mount []) [Input ''a'' 1, Fire 1, Input ''ab'' 2, Fire 2,
       Input ''abc'' 3, Reply 1 (Resolve ''x'')]) (KeyDown Escape)) = None
   \<and> ghostSuggestion (run (run (mount []) [Input ''a'' 1, Fire 1, Input ''ab'' 2, Fire 2,
       Input ''abc'' 3, Reply 1 (Resolve ''x'')]) [KeyDown Escape, Reply 2 (Resolve ''y'')])
     = Some \<lparr>ghost_text = ''y'', ghost_position = 2\<rparr>
   \<and> map fst (calls (run (run (mount []) [Input ''a'' 1, Fire 1, Input ''ab'' 2, Fire 2,
       Input ''abc'' 3, Reply 1 (Resolve ''x'')]) [KeyDown Escape, Fire 3]))
     = [''a'', ''ab'', ''abc'']"
proof -
  let ?s = "run (mount []) [Input ''a'' 1, Fire 1, Input ''ab'' 2, Fire 2, Input ''abc'' 3,
       Reply 1 (Resolve ''x'')]"
  have h1: "ghostSuggestion ?s = Some \<lparr>ghost_text = ''x'', ghost_position = 1\<rparr>"
    by code_simp
  have h2: "Escape = Tab \<or> Escape = Escape" by simp
  have h3: "map_of (requests ?s) 2 = Some (''ab'', 2)" by code_simp
  have h4: "handle_inv ?s" by (intro handle_inv_run handle_inv_mount)
  have h5: "ghost_timers ?s = [(3, GhostCallback ''abc'')]" by code_simp
  have cs: "map fst (calls ?s) = [''a'', ''ab'']" by code_simp
  have t: "trim ''y'' \<noteq> []" by code_simp
  from dismiss_or_accept [OF h1 h2, of 2 "''ab''" 2 "Resolve ''y''" 3 "''abc''"] h3 h4 h5 cs t h1
  show ?thesis by (simp del: step.simps)
qed

text \<open>
  The claim as the specification states it fails: after Escape the answer of the call in
  flight is applied, and a timeout that was pending is still pending and issues its call
  when it fires.
\<close>

theorem result_applied_after_dismissal:
  "ghostSuggestion (run (mount []) [Input ''a'' 1, Fire 1, Input ''ab'' 2, Fire 2,
       Reply 1 (Resolve ''x''), KeyDown Escape, Reply 2 (Resolve ''y'')])
     = Some \<lparr>ghost_text = ''y'', ghost_position = 2\<rparr>
   \<and> timers (run (mount []) [Input ''a'' 1, Fire 1, Input ''ab'' 2,
       Reply 1 (Resolve ''x''), KeyDown Escape])
     = [(2, GhostCallback ''ab'')]
   \<and> calls (run (mount []) [Input ''a'' 1, Fire 1, Input ''ab'' 2,
       Reply 1 (Resolve ''x''), KeyDown Escape, Fire 2])
     = [(''a'', 1), (''ab'', 2)]"
  by code_simp


end
